theory Spec2Isabelle
  imports Main "HOL-Library.List_Lexorder" "HOL-Library.Char_ord" "HOL-Library.AList"
begin

section \<open>The Paxos peer of paxos.go\<close>

text \<open>
  One peer of the library keeps a done vector and a store of instances, a Go map from
  the sequence number to a pointer to the instance. The model keeps the map as an
  association list with one entry for each key: a \<open>range\<close> loop over the map
  is a fold over that list, and since the theorems speak of every list, they hold for every
  order in which Go may visit the keys. Go's \<open>int\<close> is modelled by \<open>int\<close>; the only
  arithmetic on a stored integer is \<open>min+1\<close> in \<open>Min\<close>, where the 64-bit wrap-around is
  written out. Go compares strings byte by byte, which is the lexicographic order on
  \<open>char list\<close>. A value of type \<open>interface{}\<close> is an \<open>option\<close>, \<open>None\<close> being
  \<open>nil\<close>. A run-time panic (an index out of range) is the \<open>Inl\<close> of a sum.
\<close>

subsection \<open>Data\<close>

definition OK :: string where
  "OK = ''OK''"

definition Reject :: string where
  "Reject = ''Reject''"

text \<open>Fields of \<open>PrepareArgs\<close>: Seq, PNum.\<close>

datatype PrepareArgs = PrepareArgs int string

text \<open>Fields of \<open>PrepareReply\<close>: Err, AcceptPnum, AcceptValue.\<close>

datatype 'v PrepareReply = PrepareReply string string "'v option"

text \<open>Fields of \<open>AcceptArgs\<close>: Seq, PNum, Value.\<close>

datatype 'v AcceptArgs = AcceptArgs int string "'v option"

text \<open>Field of \<open>AcceptReply\<close>: Err.\<close>

datatype AcceptReply = AcceptReply string

text \<open>Fields of \<open>DecideArgs\<close>: Seq, Value, PNum, Me, Done.\<close>

datatype 'v DecideArgs = DecideArgs int "'v option" string int int

datatype Fate = Decided | Pending | Forgotten

record 'v instance_t =
  state :: Fate
  n_p :: string
  n_a :: string
  v_a :: "'v option"

record 'v Paxos =
  peers :: "string list"
  me :: int
  dones :: "int list"
  instances :: "(int \<times> 'v instance_t) list"

datatype error = IndexOutOfRange

definition in_range :: "'a list \<Rightarrow> int \<Rightarrow> bool" where
  "in_range xs i \<longleftrightarrow> 0 \<le> i \<and> i < int (length xs)"

definition wrap64 :: "int \<Rightarrow> int" where
  "wrap64 x = (x + 2 ^ 63) mod 2 ^ 64 - 2 ^ 63"

subsection \<open>Helper functions\<close>

definition newInstance :: "'v instance_t" where
  "newInstance = \<lparr>state = Pending, n_p = [], n_a = [], v_a = None\<rparr>"

definition majority :: "'v Paxos \<Rightarrow> int" where
  "majority px = int (length (peers px)) div 2 + 1"

text \<open>
  \<open>strconv.FormatInt(n, 10)\<close> and \<open>strconv.Itoa\<close>: the decimal digits, most significant
  first, after a minus sign when the number is negative.
\<close>

definition digit_char :: "nat \<Rightarrow> char" where
  "digit_char n = ''0123456789'' ! n"

fun digits :: "nat \<Rightarrow> string" where
  "digits n = (if n < 10 then [digit_char n] else digits (n div 10) @ [digit_char (n mod 10)])"

declare digits.simps [simp del]

definition FormatInt :: "int \<Rightarrow> string" where
  "FormatInt n = (if n < 0 then CHR ''-'' # digits (nat (- n)) else digits (nat n))"

text \<open>
  \<open>generatePNum\<close> reads the clock; the model takes the reading, the nanoseconds since
  the fixed date \<open>begin\<close>, as its first argument.
\<close>

definition generatePNum :: "int \<Rightarrow> 'v Paxos \<Rightarrow> string" where
  "generatePNum nanoseconds px = FormatInt nanoseconds @ ''-'' @ FormatInt (me px)"

text \<open>
  \<open>px.instances[seq]\<close> read through the pointer, and \<open>px.instances[seq] = px.newInstance()\<close>
  when the key is absent. The handlers read an instance only after they have made sure
  that the key is present.
\<close>

definition instance_at :: "'v Paxos \<Rightarrow> int \<Rightarrow> 'v instance_t" where
  "instance_at px seq = (case map_of (instances px) seq of None \<Rightarrow> newInstance | Some inst \<Rightarrow> inst)"

definition create_absent :: "'v Paxos \<Rightarrow> int \<Rightarrow> 'v Paxos" where
  "create_absent px seq =
     (case map_of (instances px) seq of
        None \<Rightarrow> px\<lparr>instances := AList.update seq newInstance (instances px)\<rparr>
      | Some _ \<Rightarrow> px)"

definition store :: "'v Paxos \<Rightarrow> int \<Rightarrow> 'v instance_t \<Rightarrow> 'v Paxos" where
  "store px seq inst = px\<lparr>instances := AList.update seq inst (instances px)\<rparr>"

subsection \<open>The acceptor's handlers\<close>

fun Prepare :: "'v Paxos \<Rightarrow> PrepareArgs \<Rightarrow> 'v PrepareReply \<times> 'v Paxos" where
  "Prepare px (PrepareArgs seq pnum) =
     (let px1 = create_absent px seq;
          inst = instance_at px1 seq;
          maxseq = n_p inst
      in if pnum \<ge> maxseq
         then (PrepareReply OK (n_a inst) (v_a inst), store px1 seq (inst\<lparr>n_p := pnum\<rparr>))
         else (PrepareReply Reject (n_a inst) (v_a inst), px1))"

fun Accept :: "'v Paxos \<Rightarrow> 'v AcceptArgs \<Rightarrow> AcceptReply \<times> 'v Paxos" where
  "Accept px (AcceptArgs seq pnum v) =
     (case map_of (instances px) seq of
        None \<Rightarrow> (AcceptReply Reject, px)
      | Some inst \<Rightarrow>
          (let maxseq = n_p inst
           in if pnum \<ge> maxseq
              then (AcceptReply OK, store px seq (inst\<lparr>n_p := pnum, n_a := pnum, v_a := v\<rparr>))
              else (AcceptReply Reject, px)))"

text \<open>
  \<open>Decide\<close> writes the instance first and the done vector last, so an index out of range
  panics after the instance has been written; the peer's process ends there.
\<close>

fun Decide :: "'v Paxos \<Rightarrow> 'v DecideArgs \<Rightarrow> error + 'v Paxos" where
  "Decide px (DecideArgs seq v pnum sender sdone) =
     (let px1 = create_absent px seq;
          inst = instance_at px1 seq;
          px2 = store px1 seq (inst\<lparr>v_a := v, n_a := pnum, n_p := pnum, state := Decided\<rparr>)
      in if in_range (dones px2) sender
         then Inr (px2\<lparr>dones := (dones px2)[nat sender := sdone]\<rparr>)
         else Inl IndexOutOfRange)"

subsection \<open>The application's calls\<close>

definition Done :: "'v Paxos \<Rightarrow> int \<Rightarrow> error + 'v Paxos" where
  "Done px seq =
     (if in_range (dones px) (me px)
      then (if seq > dones px ! nat (me px)
            then Inr (px\<lparr>dones := (dones px)[nat (me px) := seq]\<rparr>)
            else Inr px)
      else Inl IndexOutOfRange)"

definition Max_paxos :: "'v Paxos \<Rightarrow> int" where
  "Max_paxos px = fold (\<lambda>(i, _) mx. if i > mx then i else mx) (instances px) 0"

definition min_done :: "'v Paxos \<Rightarrow> int" where
  "min_done px = fold (\<lambda>i mn. if i < mn then i else mn) (dones px) (dones px ! nat (me px))"

definition forget :: "int \<Rightarrow> (int \<times> 'v instance_t) list \<Rightarrow> (int \<times> 'v instance_t) list" where
  "forget mn insts =
     fold (\<lambda>(seq, inst) m. if seq \<le> mn \<and> state inst = Decided then AList.delete seq m else m)
       insts insts"

definition Min_paxos :: "'v Paxos \<Rightarrow> error + int \<times> 'v Paxos" where
  "Min_paxos px =
     (if in_range (dones px) (me px)
      then (let mn = min_done px
            in Inr (wrap64 (mn + 1), px\<lparr>instances := forget mn (instances px)\<rparr>))
      else Inl IndexOutOfRange)"

definition Status :: "'v Paxos \<Rightarrow> int \<Rightarrow> error + (Fate \<times> 'v option) \<times> 'v Paxos" where
  "Status px seq =
     (case Min_paxos px of
        Inl e \<Rightarrow> Inl e
      | Inr (mn, px1) \<Rightarrow>
          (if seq < mn then Inr ((Forgotten, None), px1)
           else (case map_of (instances px1) seq of
                   None \<Rightarrow> Inr ((Pending, None), px1)
                 | Some inst \<Rightarrow> Inr ((state inst, v_a inst), px1))))"

definition Make :: "string list \<Rightarrow> int \<Rightarrow> 'v Paxos" where
  "Make ps m = \<lparr>peers = ps, me = m, dones = replicate (length ps) (- 1), instances = []\<rparr>"

subsection \<open>The proposer and the application, as a transition system\<close>

text \<open>
  Every handler holds the peer's mutex from entry to exit, so a run of the whole system is
  a sequence of handler calls, each one atomic. A proposer is the goroutine that \<open>Start\<close>
  launches; the model keeps its program counter together with the local variables that
  are live there, and lets a scheduler advance one proposer by one step: reading the clock
  at the top of the loop, one iteration of one of the three \<open>range px.peers\<close> loops
  (one call of a handler, local or remote), the code between two loops, or the call of
  \<open>Status\<close> at the bottom.

  A remote \<open>call\<close> either never reaches the server, or runs the handler and loses the
  reply, or runs the handler and brings the reply back; when no reply comes back the
  reply structure keeps what the proposer wrote into it before the call.
\<close>

datatype net = Answered | ReplyLost | RequestLost

definition call_Prepare ::
    "net \<Rightarrow> 'v Paxos \<Rightarrow> PrepareArgs \<Rightarrow> 'v PrepareReply \<Rightarrow> 'v PrepareReply \<times> 'v Paxos" where
  "call_Prepare outcome srv args reply =
     (case outcome of
        RequestLost \<Rightarrow> (reply, srv)
      | ReplyLost \<Rightarrow> (reply, snd (Prepare srv args))
      | Answered \<Rightarrow> Prepare srv args)"

definition call_Accept ::
    "net \<Rightarrow> 'v Paxos \<Rightarrow> 'v AcceptArgs \<Rightarrow> AcceptReply \<Rightarrow> AcceptReply \<times> 'v Paxos" where
  "call_Accept outcome srv args reply =
     (case outcome of
        RequestLost \<Rightarrow> (reply, srv)
      | ReplyLost \<Rightarrow> (reply, snd (Accept srv args))
      | Answered \<Rightarrow> Accept srv args)"

definition call_Decide :: "net \<Rightarrow> 'v Paxos \<Rightarrow> 'v DecideArgs \<Rightarrow> error + 'v Paxos" where
  "call_Decide outcome srv args =
     (case outcome of
        RequestLost \<Rightarrow> Inr srv
      | ReplyLost \<Rightarrow> Decide srv args
      | Answered \<Rightarrow> Decide srv args)"

text \<open>
  The program counter of \<open>propose\<close>. \<open>InPrepare pnum i acnum maxprenum maxacval\<close> is
  the first loop before its iteration \<open>i\<close>; \<open>InAccept pnum val i accNum\<close> is the loop of
  \<open>sendAccept\<close>, \<open>val\<close> being the variable \<open>value\<close>; \<open>InDecide decargs i\<close> is the
  last loop; \<open>AtStatus\<close> is the call of \<open>Status\<close> that ends an iteration without a
  decision.
\<close>

datatype 'v pc =
    AtTop
  | InPrepare string nat int string "'v option"
  | InAccept string "'v option" nat int
  | InDecide "'v DecideArgs" nat
  | AtStatus
  | Exited

record 'v task =
  t_host :: nat
  t_seq :: int
  t_v :: "'v option"
  t_pc :: "'v pc"

text \<open>
  \<open>nodes ! i\<close> is the peer that listens on \<open>peers[i]\<close>; a peer index with no node
  behind it is an endpoint that cannot be dialled.
\<close>

definition send_Prepare ::
    "net \<Rightarrow> 'v Paxos list \<Rightarrow> nat \<Rightarrow> nat \<Rightarrow> PrepareArgs \<Rightarrow> 'v PrepareReply \<times> 'v Paxos list" where
  "send_Prepare outcome ns h i args =
     (let reply0 = PrepareReply Reject [] None
      in if int i = me (ns ! h)
         then (case Prepare (ns ! h) args of (reply, px') \<Rightarrow> (reply, ns[h := px']))
         else if i < length ns
         then (case call_Prepare outcome (ns ! i) args reply0 of (reply, srv') \<Rightarrow> (reply, ns[i := srv']))
         else (reply0, ns))"

definition send_Accept ::
    "net \<Rightarrow> 'v Paxos list \<Rightarrow> nat \<Rightarrow> nat \<Rightarrow> 'v AcceptArgs \<Rightarrow> AcceptReply \<times> 'v Paxos list" where
  "send_Accept outcome ns h i args =
     (let acreply0 = AcceptReply []
      in if int i = me (ns ! h)
         then (case Accept (ns ! h) args of (reply, px') \<Rightarrow> (reply, ns[h := px']))
         else if i < length ns
         then (case call_Accept outcome (ns ! i) args acreply0 of (reply, srv') \<Rightarrow> (reply, ns[i := srv']))
         else (acreply0, ns))"

definition send_Decide ::
    "net \<Rightarrow> 'v Paxos list \<Rightarrow> nat \<Rightarrow> nat \<Rightarrow> 'v DecideArgs \<Rightarrow> error + 'v Paxos list" where
  "send_Decide outcome ns h i args =
     (if int i = me (ns ! h)
      then (case Decide (ns ! h) args of Inl e \<Rightarrow> Inl e | Inr px' \<Rightarrow> Inr (ns[h := px']))
      else if i < length ns
      then (case call_Decide outcome (ns ! i) args of Inl e \<Rightarrow> Inl e | Inr srv' \<Rightarrow> Inr (ns[i := srv']))
      else Inr ns)"

fun propose_step ::
    "int \<Rightarrow> net \<Rightarrow> 'v Paxos list \<Rightarrow> nat \<Rightarrow> int \<Rightarrow> 'v option \<Rightarrow> 'v pc \<Rightarrow> error + 'v Paxos list \<times> 'v pc" where
  "propose_step clock outcome ns h seq v AtTop =
     Inr (ns, InPrepare (generatePNum clock (ns ! h)) 0 0 [] v)"
| "propose_step clock outcome ns h seq v (InPrepare pnum i acnum maxprenum maxacval) =
     (if i < length (peers (ns ! h))
      then (case send_Prepare outcome ns h i (PrepareArgs seq pnum) of
              (PrepareReply err apn av, ns') \<Rightarrow>
                if err = OK
                then (if apn > maxprenum
                      then Inr (ns', InPrepare pnum (i + 1) (acnum + 1) apn av)
                      else Inr (ns', InPrepare pnum (i + 1) (acnum + 1) maxprenum maxacval))
                else Inr (ns', InPrepare pnum (i + 1) acnum maxprenum maxacval))
      else if acnum \<ge> majority (ns ! h)
      then Inr (ns, InAccept pnum maxacval 0 0)
      else Inr (ns, AtStatus))"
| "propose_step clock outcome ns h seq v (InAccept pnum val i accNum) =
     (if i < length (peers (ns ! h))
      then (case send_Accept outcome ns h i (AcceptArgs seq pnum val) of
              (AcceptReply err, ns') \<Rightarrow>
                if err = OK
                then Inr (ns', InAccept pnum val (i + 1) (accNum + 1))
                else Inr (ns', InAccept pnum val (i + 1) accNum))
      else if accNum \<ge> majority (ns ! h)
      then (if in_range (dones (ns ! h)) (me (ns ! h))
            then Inr (ns, InDecide (DecideArgs seq val pnum (me (ns ! h))
                                      (dones (ns ! h) ! nat (me (ns ! h)))) 0)
            else Inl IndexOutOfRange)
      else Inr (ns, AtStatus))"
| "propose_step clock outcome ns h seq v (InDecide decargs i) =
     (if i < length (peers (ns ! h))
      then (case send_Decide outcome ns h i decargs of
              Inl e \<Rightarrow> Inl e
            | Inr ns' \<Rightarrow> Inr (ns', InDecide decargs (i + 1)))
      else Inr (ns, Exited))"
| "propose_step clock outcome ns h seq v AtStatus =
     (case Status (ns ! h) seq of
        Inl e \<Rightarrow> Inl e
      | Inr ((fate, _), px') \<Rightarrow> Inr (ns[h := px'], if fate = Decided then Exited else AtTop))"
| "propose_step clock outcome ns h seq v Exited = Inr (ns, Exited)"

record 'v world =
  nodes :: "'v Paxos list"
  tasks :: "'v task list"

text \<open>
  What can happen next: the application calls \<open>Start\<close>, \<open>Done\<close> or \<open>Status\<close>
  on a peer, or the scheduler runs one step of a proposer, with the clock reading and the
  fate of the message that the step may need.
\<close>

datatype 'v event =
    Start nat int "'v option"
  | CallDone nat int
  | CallStatus nat int
  | Run nat int net

fun exec :: "'v world \<Rightarrow> 'v event \<Rightarrow> error + 'v world" where
  "exec w (Start h seq v) =
     (if h < length (nodes w)
      then (case Min_paxos (nodes w ! h) of
              Inl e \<Rightarrow> Inl e
            | Inr (mn, px') \<Rightarrow>
                if seq < mn
                then Inr (w\<lparr>nodes := (nodes w)[h := px']\<rparr>)
                else Inr (w\<lparr>nodes := (nodes w)[h := px'],
                           tasks := tasks w @ [\<lparr>t_host = h, t_seq = seq, t_v = v, t_pc = AtTop\<rparr>]\<rparr>))
      else Inr w)"
| "exec w (CallDone h seq) =
     (if h < length (nodes w)
      then (case Done (nodes w ! h) seq of
              Inl e \<Rightarrow> Inl e
            | Inr px' \<Rightarrow> Inr (w\<lparr>nodes := (nodes w)[h := px']\<rparr>))
      else Inr w)"
| "exec w (CallStatus h seq) =
     (if h < length (nodes w)
      then (case Status (nodes w ! h) seq of
              Inl e \<Rightarrow> Inl e
            | Inr (_, px') \<Rightarrow> Inr (w\<lparr>nodes := (nodes w)[h := px']\<rparr>))
      else Inr w)"
| "exec w (Run k clock outcome) =
     (if k < length (tasks w) \<and> t_host (tasks w ! k) < length (nodes w)
      then (let t = tasks w ! k
            in case propose_step clock outcome (nodes w) (t_host t) (t_seq t) (t_v t) (t_pc t) of
                 Inl e \<Rightarrow> Inl e
               | Inr (ns', pc') \<Rightarrow> Inr (w\<lparr>nodes := ns', tasks := (tasks w)[k := t\<lparr>t_pc := pc'\<rparr>]\<rparr>))
      else Inr w)"

fun run :: "'v world \<Rightarrow> 'v event list \<Rightarrow> error + 'v world" where
  "run w [] = Inr w"
| "run w (e # es) = (case exec w e of Inl err \<Rightarrow> Inl err | Inr w' \<Rightarrow> run w' es)"

definition boot :: "string list \<Rightarrow> 'v world" where
  "boot ps = \<lparr>nodes = map (\<lambda>i. Make ps (int i)) [0..<length ps], tasks = []\<rparr>"

text \<open>
  A run of three peers in which the application of peer 0 starts instance 0 twice, with the
  values \<open>a\<close> and \<open>b\<close>. Both proposers read the clock in the same tick (the reading
  1000), every message is delivered and answered, and the scheduler interleaves the two
  goroutines: both read the clock, the first and then the second run the prepare loop,
  the first and then the second run \<open>sendAccept\<close>, and in the last loop the first
  proposer's \<open>Decide\<close> reaches peer 0 before the second proposer's and peer 1 after
  it; then both leave the loop.
\<close>

definition duel :: "string event list" where
  "duel =
     [Start 0 0 (Some ''a''), Start 0 0 (Some ''b'')] @
     map (\<lambda>k. Run k 1000 Answered)
       ([0, 1] @ [0, 0, 0, 0] @ [1, 1, 1, 1] @ [0, 0, 0, 0] @ [1, 1, 1, 1] @
        [0, 1, 1, 0, 0, 1] @ [0, 1])"

text \<open>
  A run of five peers with round numbers that all differ. The application of peer 0 starts
  instance 0 with \<open>b\<close>; its proposer draws the round number \<open>1000-0\<close>, calls its
  own \<open>Prepare\<close>, and then waits for its call to peer 1. Meanwhile the proposer of
  peer 1 decides \<open>a\<close> for instance 0 in round \<open>2000-1\<close> on all five peers, every
  application calls \<open>Done(0)\<close>, and every peer decides one more instance, whose
  \<open>Decide\<close> (carrying the sender's done value 0) reaches the sender and peers 2, 3 and
  4. A call of \<open>Status\<close> on peers 2, 3 and 4 then deletes their instance 0. Now the
  first proposer goes on: peers 2, 3 and 4 create fresh instances and answer \<open>OK\<close>
  with nothing accepted, to \<open>Prepare\<close> and to \<open>Accept\<close>, and its \<open>Decide\<close>
  of \<open>b\<close> reaches every peer but peer 1.
\<close>

definition steps :: "nat \<Rightarrow> int \<Rightarrow> net list \<Rightarrow> 'v event list" where
  "steps k clock outcomes = map (Run k clock) outcomes"

text \<open>
  A whole iteration of proposer \<open>k\<close> on five peers, from the top of the loop to its
  exit, in which every \<open>Prepare\<close> and \<open>Accept\<close> is answered and the five
  \<open>Decide\<close> calls fare as \<open>decides\<close> says.
\<close>

definition iteration :: "nat \<Rightarrow> int \<Rightarrow> net list \<Rightarrow> 'v event list" where
  "iteration k clock decides =
     steps k clock
       ([Answered] @ replicate 5 Answered @ [Answered] @ replicate 5 Answered @ [Answered] @
        decides @ [Answered])"

definition to_2_3_4 :: "net list" where
  "to_2_3_4 = [RequestLost, RequestLost, Answered, Answered, Answered]"

definition forgetful :: "string event list" where
  "forgetful =
     [Start 0 0 (Some ''b'')] @ steps 0 1000 [Answered, Answered] @
     [Start 1 0 (Some ''a'')] @ iteration 1 2000 (replicate 5 Answered) @
     [CallDone 0 0, CallDone 1 0, CallDone 2 0, CallDone 3 0, CallDone 4 0] @
     [Start 0 1 (Some ''x'')] @ iteration 2 3000 to_2_3_4 @
     [Start 1 2 (Some ''x'')] @ iteration 3 3000 to_2_3_4 @
     [Start 2 3 (Some ''x'')] @ iteration 4 3000 to_2_3_4 @
     [Start 3 4 (Some ''x'')] @ iteration 5 3000 to_2_3_4 @
     [Start 4 5 (Some ''x'')] @ iteration 6 3000 to_2_3_4 @
     [CallStatus 2 0, CallStatus 3 0, CallStatus 4 0] @
     steps 0 4000
       (replicate 4 Answered @ [Answered] @ replicate 5 Answered @ [Answered] @
        [Answered, RequestLost, Answered, Answered, Answered] @ [Answered])"

text \<open>
  A peer is well formed when its store has one entry for each key, as a Go map has, and
  its index \<open>me\<close> is an index of its done vector, as it is for an index into
  \<open>peers\<close> after \<open>Make\<close>.
\<close>

definition wf_peer :: "'v Paxos \<Rightarrow> bool" where
  "wf_peer px \<longleftrightarrow> distinct (map fst (instances px)) \<and> in_range (dones px) (me px)"

text \<open>What \<open>Status(seq)\<close> returns on each peer of a world, in the order of the peers.\<close>

definition reports :: "'v world \<Rightarrow> int \<Rightarrow> (error + Fate \<times> 'v option) list" where
  "reports w seq = map (\<lambda>px. map_sum id fst (Status px seq)) (nodes w)"

text \<open>
  A run in which the application's \<open>Done(5)\<close> on peer 0 falls between the moment a
  proposer of peer 0 has built its \<open>DecideArgs\<close> and the moment it calls its own
  \<open>Decide\<close>.
\<close>

definition late_decide :: "string event list" where
  "late_decide =
     [Start 0 0 (Some ''a'')] @
     map (\<lambda>k. Run k 1000 Answered) [0, 0, 0, 0, 0, 0, 0, 0, 0] @
     [CallDone 0 5, Run 0 1000 Answered]"

subsection \<open>Peers used as examples\<close>

text \<open>A peer that has promised round \<open>7-1\<close> and accepted \<open>a\<close> in round \<open>5-0\<close> for instance 0.\<close>

definition promised_peer :: "string Paxos" where
  "promised_peer =
     \<lparr>peers = [''p0'', ''p1'', ''p2''], me = 1, dones = [- 1, - 1, - 1],
      instances = [(0, \<lparr>state = Pending, n_p = ''7-1'', n_a = ''5-0'', v_a = Some ''a''\<rparr>)]\<rparr>"

text \<open>
  A peer whose done vector has the minimum 0, with instances 0 and 2 decided and
  instance 1 pending.
\<close>

definition decided_peer :: "string Paxos" where
  "decided_peer =
     \<lparr>peers = [''p0'', ''p1'', ''p2''], me = 0, dones = [0, 2, 0],
      instances =
        [(0, \<lparr>state = Decided, n_p = ''3-1'', n_a = ''3-1'', v_a = Some ''a''\<rparr>),
         (1, \<lparr>state = Pending, n_p = ''4-2'', n_a = [], v_a = None\<rparr>),
         (2, \<lparr>state = Decided, n_p = ''5-0'', n_a = ''5-0'', v_a = Some ''c''\<rparr>)]\<rparr>"

text \<open>The same peer after \<open>Min\<close> has deleted instance 0.\<close>

definition collected_peer :: "string Paxos" where
  "collected_peer =
     \<lparr>peers = [''p0'', ''p1'', ''p2''], me = 0, dones = [0, 2, 0],
      instances =
        [(1, \<lparr>state = Pending, n_p = ''4-2'', n_a = [], v_a = None\<rparr>),
         (2, \<lparr>state = Decided, n_p = ''5-0'', n_a = ''5-0'', v_a = Some ''c''\<rparr>)]\<rparr>"

text \<open>A peer that has heard \<open>Done(5)\<close> from peer 1.\<close>

definition informed_peer :: "string Paxos" where
  "informed_peer =
     \<lparr>peers = [''p0'', ''p1'', ''p2''], me = 0, dones = [- 1, 5, - 1], instances = []\<rparr>"

section \<open>The instance store\<close>

text \<open>
  A Go map has one entry for each key. The association list of the model has it when the
  keys of the list are distinct; \<open>Make\<close> starts from the empty list and every operation
  keeps the keys distinct.
\<close>

lemma map_of_create_absent:
  "map_of (instances (create_absent px seq)) = (map_of (instances px))(seq \<mapsto> instance_at px seq)"
  by (auto simp: create_absent_def instance_at_def update_conv' split: option.splits)

lemma instance_at_create_absent [simp]:
  "instance_at (create_absent px seq) seq = instance_at px seq"
  by (simp add: instance_at_def map_of_create_absent)

lemma map_of_store [simp]:
  "map_of (instances (store px seq inst)) = (map_of (instances px))(seq \<mapsto> inst)"
  by (simp add: store_def update_conv')

lemma frame_create_absent [simp]:
  "dones (create_absent px seq) = dones px"
  "peers (create_absent px seq) = peers px"
  "me (create_absent px seq) = me px"
  by (simp_all add: create_absent_def split: option.splits)

lemma frame_store [simp]:
  "dones (store px seq inst) = dones px"
  "peers (store px seq inst) = peers px"
  "me (store px seq inst) = me px"
  by (simp_all add: store_def)

lemma distinct_create_absent:
  "distinct (map fst (instances px)) \<Longrightarrow> distinct (map fst (instances (create_absent px seq)))"
  by (simp add: create_absent_def distinct_update split: option.splits)

lemma distinct_store:
  "distinct (map fst (instances px)) \<Longrightarrow> distinct (map fst (instances (store px seq inst)))"
  by (simp add: store_def distinct_update)

lemma distinct_Make: "distinct (map fst (instances (Make ps m)))"
  by (simp add: Make_def)

lemma distinct_Prepare:
  assumes "distinct (map fst (instances px))" "Prepare px args = (reply, px')"
  shows "distinct (map fst (instances px'))"
proof (cases args)
  case (PrepareArgs seq pnum)
  show ?thesis
    using assms distinct_create_absent [of px seq]
      distinct_store [of "create_absent px seq" seq "(instance_at px seq)\<lparr>n_p := pnum\<rparr>"]
    by (auto simp: PrepareArgs Let_def split: if_splits)
qed

lemma distinct_Accept:
  assumes "distinct (map fst (instances px))" "Accept px args = (reply, px')"
  shows "distinct (map fst (instances px'))"
proof (cases args)
  case (AcceptArgs seq pnum v)
  show ?thesis
    using assms
    by (auto simp: AcceptArgs Let_def distinct_store split: if_splits option.splits)
qed

lemma distinct_Decide:
  assumes "distinct (map fst (instances px))" "Decide px args = Inr px'"
  shows "distinct (map fst (instances px'))"
proof (cases args)
  case (DecideArgs seq v pnum sender sdone)
  have "distinct (map fst (instances (store (create_absent px seq) seq inst)))" for inst
    using assms(1) by (intro distinct_store distinct_create_absent)
  then show ?thesis
    using assms(2) by (auto simp: DecideArgs Let_def split: if_splits)
qed

lemma distinct_Done:
  assumes "distinct (map fst (instances px))" "Done px seq = Inr px'"
  shows "distinct (map fst (instances px'))"
  using assms by (auto simp: Done_def split: if_splits)

subsection \<open>The two loops of Min\<close>

lemma fold_min_eq:
  "fold (\<lambda>i mn. if i < mn then i else mn) xs (a::int) = Min (set (a # xs))"
proof -
  have "(\<lambda>i mn. if i < mn then i else mn) = (min :: int \<Rightarrow> int \<Rightarrow> int)"
    by (intro ext) (simp add: min_def)
  then show ?thesis by (simp only: Min.set_eq_fold)
qed

lemma min_done_eq:
  assumes "in_range (dones px) (me px)"
  shows "min_done px = Min (set (dones px))"
proof -
  have "dones px ! nat (me px) \<in> set (dones px)"
    using assms by (auto simp: in_range_def intro!: nth_mem)
  then have "set (dones px ! nat (me px) # dones px) = set (dones px)" by auto
  then show ?thesis unfolding min_done_def fold_min_eq by simp
qed

lemma map_of_fold_delete:
  "map_of (fold (\<lambda>(seq, inst) m. if seq \<le> mn \<and> state inst = Decided then AList.delete seq m else m) ys m) s =
   (if \<exists>inst. (s, inst) \<in> set ys \<and> s \<le> mn \<and> state inst = Decided then None else map_of m s)"
proof (induction ys arbitrary: m)
  case Nil
  then show ?case by simp
next
  case (Cons y ys)
  obtain k i where y: "y = (k, i)" by (cases y)
  show ?case
    unfolding y by (simp add: Cons.IH delete_conv') blast
qed

lemma map_of_forget:
  assumes "distinct (map fst insts)"
  shows "map_of (forget mn insts) s =
         (case map_of insts s of
            None \<Rightarrow> None
          | Some inst \<Rightarrow> if s \<le> mn \<and> state inst = Decided then None else Some inst)"
proof (cases "map_of insts s")
  case None
  then show ?thesis by (simp add: forget_def map_of_fold_delete)
next
  case (Some inst)
  have "(s, i) \<in> set insts \<longleftrightarrow> i = inst" for i
    using assms Some by (metis map_of_eq_Some_iff option.inject)
  then show ?thesis using Some by (simp add: forget_def map_of_fold_delete)
qed

lemma distinct_fold_delete:
  "distinct (map fst m) \<Longrightarrow>
   distinct (map fst (fold (\<lambda>(seq, inst) m. if seq \<le> mn \<and> state inst = Decided then AList.delete seq m else m) ys m))"
proof (induction ys arbitrary: m)
  case Nil
  then show ?case by simp
next
  case (Cons y ys)
  obtain k i where y: "y = (k, i)" by (cases y)
  show ?case unfolding y using Cons.prems by (simp add: Cons.IH distinct_delete)
qed

lemma distinct_Min_paxos:
  assumes "distinct (map fst (instances px))" "Min_paxos px = Inr (h, px')"
  shows "distinct (map fst (instances px'))"
  using assms by (auto simp: Min_paxos_def Let_def forget_def distinct_fold_delete split: if_splits)

lemma Status_state:
  assumes "Min_paxos px = Inr (h, px1)" "Status px seq = Inr (r, px2)"
  shows "px2 = px1"
  using assms by (auto simp: Status_def split: if_splits option.splits)

lemma wrap64_id:
  assumes "- (2 ^ 63) \<le> x" "x < 2 ^ 63"
  shows "wrap64 x = x"
proof -
  have "0 \<le> x + 2 ^ 63" "x + 2 ^ 63 < 2 ^ 64" using assms by simp_all
  then have "(x + 2 ^ 63) mod 2 ^ 64 = x + 2 ^ 63" by (rule mod_pos_pos_trivial)
  then show ?thesis by (simp add: wrap64_def)
qed

subsection \<open>The loop of Max\<close>

lemma Max_paxos_eq: "Max_paxos px = Max (set (0 # map fst (instances px)))"
proof -
  have "(\<lambda>(i, _) mx. if i > mx then i else mx) = (max :: int \<Rightarrow> int \<Rightarrow> int) \<circ> fst"
    by (intro ext) (simp add: max_def split: prod.splits)
  then have "fold (\<lambda>(i, _) mx. if i > mx then i else mx) (instances px) 0 =
             fold max (map fst (instances px)) (0::int)"
    unfolding fold_map by (rule arg_cong [where f = "\<lambda>f. fold f (instances px) 0"])
  then show ?thesis unfolding Max_paxos_def by (simp only: Max.set_eq_fold)
qed

section \<open>Decimal round numbers\<close>

lemma of_char_digit_char:
  assumes "n < 10"
  shows "(of_char (digit_char n) :: nat) = 48 + n"
proof -
  have "map (\<lambda>k. (of_char (digit_char k) :: nat)) [0..<10] = map (\<lambda>k. 48 + k) [0..<10]"
    by code_simp
  from arg_cong [OF this, of "\<lambda>xs. xs ! n"] show ?thesis
    using assms by simp
qed

lemma digit_char_less:
  assumes "m < 10" "n < 10"
  shows "digit_char m < digit_char n \<longleftrightarrow> m < n"
  by (simp add: less_char_def of_char_digit_char assms)

lemma digit_char_inj:
  assumes "m < 10" "n < 10" "digit_char m = digit_char n"
  shows "m = n"
proof -
  have "(of_char (digit_char m) :: nat) = of_char (digit_char n)" using assms(3) by simp
  then show ?thesis by (simp add: of_char_digit_char assms(1,2))
qed

lemma digit_char_not_minus:
  assumes "n < 10"
  shows "digit_char n \<noteq> CHR ''-''"
proof
  assume "digit_char n = CHR ''-''"
  then have "(of_char (digit_char n) :: nat) = of_char (CHR ''-'')" by simp
  then show False by (simp add: of_char_digit_char assms)
qed

lemma digits_small: "n < 10 \<Longrightarrow> digits n = [digit_char n]"
  by (subst digits.simps) simp

lemma digits_large: "\<not> n < 10 \<Longrightarrow> digits n = digits (n div 10) @ [digit_char (n mod 10)]"
  by (subst digits.simps) simp

lemma digits_not_Nil: "digits n \<noteq> []"
  by (cases "n < 10") (simp_all add: digits_small digits_large)

lemma length_digits_large:
  assumes "\<not> n < 10"
  shows "2 \<le> length (digits n)"
proof -
  have "length (digits n) = length (digits (n div 10)) + 1"
    by (simp only: digits_large [OF assms] length_append list.size)
  moreover have "0 < length (digits (n div 10))"
    using digits_not_Nil [of "n div 10"] by (cases "digits (n div 10)") simp_all
  ultimately show ?thesis by linarith
qed

lemma minus_notin_digits: "CHR ''-'' \<notin> set (digits n)"
proof (induction n rule: digits.induct)
  case (1 n)
  show ?case
  proof (cases "n < 10")
    case True
    then show ?thesis using digit_char_not_minus [of n] by (simp add: digits_small)
  next
    case False
    have "n mod 10 < 10" by simp
    then have "digit_char (n mod 10) \<noteq> CHR ''-''" by (rule digit_char_not_minus)
    then show ?thesis using False "1.IH" by (auto simp: digits_large)
  qed
qed

lemma digits_inj: "digits a = digits b \<Longrightarrow> a = b"
proof (induction a arbitrary: b rule: digits.induct)
  case (1 a)
  have len: "length (digits a) = length (digits b)" using "1.prems" by simp
  show ?case
  proof (cases "a < 10")
    case True
    have "b < 10"
    proof (rule ccontr)
      assume "\<not> b < 10"
      then have "2 \<le> length (digits b)" by (rule length_digits_large)
      then show False using len True by (simp add: digits_small)
    qed
    then show ?thesis using "1.prems" True digit_char_inj [of a b] by (simp add: digits_small)
  next
    case False
    have nb: "\<not> b < 10"
    proof
      assume "b < 10"
      moreover have "2 \<le> length (digits a)" using False by (rule length_digits_large)
      ultimately show False using len by (simp add: digits_small)
    qed
    from "1.prems" have eq: "digits (a div 10) = digits (b div 10)"
      and "digit_char (a mod 10) = digit_char (b mod 10)"
      by (simp_all add: digits_large False nb)
    then have "a mod 10 = b mod 10" using digit_char_inj [of "a mod 10" "b mod 10"] by simp
    moreover have "a div 10 = b div 10" using "1.IH" [OF False eq] .
    ultimately show ?thesis by (metis div_mult_mod_eq)
  qed
qed

lemma less_append_same_length:
  fixes xs ys :: "'a::linorder list"
  assumes "xs < ys" "length xs = length ys"
  shows "xs @ u < ys @ v"
  using assms unfolding list_less_def by (intro lexord_sufI) simp_all

lemma less_append_same_prefix:
  fixes u v :: "'a::linorder list"
  assumes "u < v"
  shows "xs @ u < xs @ v"
  using assms unfolding list_less_def by (rule lexord_append_leftI)

lemma digits_mono:
  "a < b \<Longrightarrow> length (digits a) = length (digits b) \<Longrightarrow> digits a < digits b"
proof (induction a arbitrary: b rule: digits.induct)
  case (1 a)
  show ?case
  proof (cases "a < 10")
    case True
    have "b < 10"
    proof (rule ccontr)
      assume "\<not> b < 10"
      then have "2 \<le> length (digits b)" by (rule length_digits_large)
      then show False using "1.prems" True by (simp add: digits_small)
    qed
    then show ?thesis using "1.prems" True by (simp add: digits_small digit_char_less)
  next
    case False
    have nb: "\<not> b < 10" using "1.prems" False by simp
    have len: "length (digits (a div 10)) = length (digits (b div 10))"
      using "1.prems" by (simp add: digits_large False nb)
    have le: "a div 10 \<le> b div 10" using "1.prems"(1) by (simp add: div_le_mono)
    show ?thesis
    proof (cases "a div 10 < b div 10")
      case True
      then have "digits (a div 10) < digits (b div 10)" using "1.IH" [OF False _ len] by simp
      then show ?thesis
        by (simp add: digits_large False nb less_append_same_length len)
    next
      case False
      then have eq: "a div 10 = b div 10" using le by simp
      have "a mod 10 < b mod 10"
      proof -
        have "a = 10 * (a div 10) + a mod 10" "b = 10 * (b div 10) + b mod 10" by simp_all
        then show ?thesis using "1.prems"(1) eq by linarith
      qed
      then have "digit_char (a mod 10) < digit_char (b mod 10)" by (simp add: digit_char_less)
      then have "[digit_char (a mod 10)] < [digit_char (b mod 10)]" by simp
      then have "digits (b div 10) @ [digit_char (a mod 10)] < digits (b div 10) @ [digit_char (b mod 10)]"
        by (rule less_append_same_prefix)
      then show ?thesis
        by (simp only: digits_large [OF \<open>\<not> a < 10\<close>] digits_large [OF nb] eq)
    qed
  qed
qed

lemma hd_digits: "hd (digits n) \<noteq> CHR ''-''"
  using minus_notin_digits [of n] digits_not_Nil [of n] by (cases "digits n") auto

lemma FormatInt_inj:
  assumes eq: "FormatInt a = FormatInt b"
  shows "a = b"
proof (cases "a < 0")
  case True
  have "b < 0"
  proof (rule ccontr)
    assume "\<not> b < 0"
    then have "CHR ''-'' # digits (nat (- a)) = digits (nat b)"
      using eq True by (simp add: FormatInt_def)
    from arg_cong [OF this, of hd] have "hd (digits (nat b)) = CHR ''-''" by simp
    then show False using hd_digits [of "nat b"] by simp
  qed
  then have "digits (nat (- a)) = digits (nat (- b))" using eq True by (simp add: FormatInt_def)
  then have "nat (- a) = nat (- b)" by (rule digits_inj)
  then show ?thesis using True \<open>b < 0\<close> by simp
next
  case False
  have "\<not> b < 0"
  proof
    assume "b < 0"
    then have "digits (nat a) = CHR ''-'' # digits (nat (- b))"
      using eq False by (simp add: FormatInt_def)
    then have "hd (digits (nat a)) = CHR ''-''" by simp
    then show False using hd_digits [of "nat a"] by simp
  qed
  then have "digits (nat a) = digits (nat b)" using eq False by (simp add: FormatInt_def)
  then have "nat a = nat b" by (rule digits_inj)
  then show ?thesis using False \<open>\<not> b < 0\<close> by simp
qed

lemma split_at_first:
  assumes "x \<notin> set xs" "x \<notin> set xs'" "xs @ x # ys = xs' @ x # ys'"
  shows "xs = xs' \<and> ys = ys'"
  using assms
proof (induction xs arbitrary: xs')
  case Nil
  then show ?case by (cases xs') auto
next
  case (Cons a as)
  then show ?case by (cases xs') auto
qed

lemma digits_sep_inj:
  assumes e: "digits m @ CHR ''-'' # u = digits n @ CHR ''-'' # v"
  shows "m = n \<and> u = v"
proof -
  have "digits m = digits n \<and> u = v"
    by (rule split_at_first [OF minus_notin_digits minus_notin_digits e])
  then have "digits m = digits n" and "u = v" by simp_all
  then show ?thesis using digits_inj [of m n] by simp
qed

lemma FormatInt_sep_inj:
  assumes "FormatInt a @ CHR ''-'' # u = FormatInt b @ CHR ''-'' # v"
  shows "a = b \<and> u = v"
proof -
  have hd_app: "hd (digits n @ w) \<noteq> CHR ''-''" for n w
    using hd_digits [of n] digits_not_Nil [of n] by simp
  show ?thesis
  proof (cases "a < 0")
    case True
    have "b < 0"
    proof (rule ccontr)
      assume "\<not> b < 0"
      then have "CHR ''-'' # digits (nat (- a)) @ CHR ''-'' # u = digits (nat b) @ CHR ''-'' # v"
        using assms True by (simp add: FormatInt_def)
      from arg_cong [OF this, of hd] have "hd (digits (nat b) @ CHR ''-'' # v) = CHR ''-''"
        by (simp only: list.sel)
      then show False using hd_app [of "nat b" "CHR ''-'' # v"] by simp
    qed
    then have "digits (nat (- a)) @ CHR ''-'' # u = digits (nat (- b)) @ CHR ''-'' # v"
      using assms True by (simp add: FormatInt_def)
    then have "nat (- a) = nat (- b) \<and> u = v" by (rule digits_sep_inj)
    then show ?thesis using True \<open>b < 0\<close> by auto
  next
    case False
    have nb: "\<not> b < 0"
    proof
      assume "b < 0"
      then have "digits (nat a) @ CHR ''-'' # u = CHR ''-'' # digits (nat (- b)) @ CHR ''-'' # v"
        using assms False by (simp add: FormatInt_def)
      from arg_cong [OF this, of hd] have "hd (digits (nat a) @ CHR ''-'' # u) = CHR ''-''"
        by (simp only: list.sel)
      then show False using hd_app [of "nat a" "CHR ''-'' # u"] by simp
    qed
    then have "digits (nat a) @ CHR ''-'' # u = digits (nat b) @ CHR ''-'' # v"
      using assms False by (simp add: FormatInt_def)
    then have "nat a = nat b \<and> u = v" by (rule digits_sep_inj)
    then show ?thesis using False nb by auto
  qed
qed

lemma generatePNum_inj:
  "generatePNum d1 px1 = generatePNum d2 px2 \<longleftrightarrow> d1 = d2 \<and> me px1 = me px2"
proof
  assume "generatePNum d1 px1 = generatePNum d2 px2"
  then have "d1 = d2 \<and> FormatInt (me px1) = FormatInt (me px2)"
    using FormatInt_sep_inj [of d1 "FormatInt (me px1)" d2 "FormatInt (me px2)"]
    by (simp add: generatePNum_def)
  then show "d1 = d2 \<and> me px1 = me px2" using FormatInt_inj by blast
next
  assume "d1 = d2 \<and> me px1 = me px2"
  then show "generatePNum d1 px1 = generatePNum d2 px2" by (simp add: generatePNum_def)
qed

lemma generatePNum_mono:
  assumes "0 \<le> d1" "d1 < d2" "length (FormatInt d1) = length (FormatInt d2)"
  shows "generatePNum d1 px1 < generatePNum d2 px2"
proof -
  have "digits (nat d1) < digits (nat d2)"
    using assms by (intro digits_mono) (simp_all add: FormatInt_def)
  moreover have "length (digits (nat d1)) = length (digits (nat d2))"
    using assms by (simp add: FormatInt_def)
  ultimately show ?thesis
    using assms by (simp add: generatePNum_def FormatInt_def less_append_same_length)
qed

section \<open>Well-formed peers in every run\<close>

text \<open>
  The theorems about \<open>Min\<close> and \<open>Status\<close> assume a well-formed peer. Every peer of
  a booted system is well formed, and stays so through every event of a run.
\<close>

lemma wf_peer_Make:
  assumes "0 \<le> m" "m < int (length ps)"
  shows "wf_peer (Make ps m)"
  using assms by (simp add: wf_peer_def Make_def in_range_def)

lemma wf_peer_Prepare:
  assumes "wf_peer px" "Prepare px args = (reply, px')"
  shows "wf_peer px'"
proof -
  have "dones px' = dones px \<and> me px' = me px"
    using assms(2) by (cases args) (auto simp: Let_def split: if_splits)
  then show ?thesis
    using assms distinct_Prepare [of px args reply px'] by (simp add: wf_peer_def)
qed

lemma wf_peer_Accept:
  assumes "wf_peer px" "Accept px args = (reply, px')"
  shows "wf_peer px'"
proof -
  have "dones px' = dones px \<and> me px' = me px"
    using assms(2) by (cases args) (auto simp: Let_def split: if_splits option.splits)
  then show ?thesis
    using assms distinct_Accept [of px args reply px'] by (simp add: wf_peer_def)
qed

lemma wf_peer_Decide:
  assumes "wf_peer px" "Decide px args = Inr px'"
  shows "wf_peer px'"
proof -
  have "length (dones px') = length (dones px) \<and> me px' = me px"
    using assms(2) by (cases args) (auto simp: Let_def split: if_splits)
  then show ?thesis
    using assms distinct_Decide [of px args px'] by (simp add: wf_peer_def in_range_def)
qed

lemma wf_peer_Done:
  assumes "wf_peer px" "Done px seq = Inr px'"
  shows "wf_peer px'"
proof -
  have "length (dones px') = length (dones px) \<and> me px' = me px"
    using assms(2) by (auto simp: Done_def split: if_splits)
  then show ?thesis
    using assms distinct_Done [of px seq px'] by (simp add: wf_peer_def in_range_def)
qed

lemma wf_peer_Min_paxos:
  assumes "wf_peer px" "Min_paxos px = Inr (h, px')"
  shows "wf_peer px'"
proof -
  have "dones px' = dones px \<and> me px' = me px"
    using assms(2) by (auto simp: Min_paxos_def Let_def split: if_splits)
  then show ?thesis
    using assms distinct_Min_paxos [of px h px'] by (simp add: wf_peer_def)
qed

lemma wf_peer_Status:
  assumes "wf_peer px" "Status px seq = Inr (r, px')"
  shows "wf_peer px'"
proof (cases "Min_paxos px")
  case (Inl e)
  then show ?thesis using assms(2) by (simp add: Status_def)
next
  case (Inr p)
  obtain h px1 where p: "p = (h, px1)" by (cases p)
  have "px' = px1" using assms(2) Inr p by (auto simp: Status_def split: if_splits option.splits)
  then show ?thesis using wf_peer_Min_paxos [OF assms(1)] Inr p by simp
qed

lemma list_all_update:
  assumes "list_all P xs" "P x"
  shows "list_all P (xs[i := x])"
  using assms set_update_subset_insert [of xs i x] by (auto simp: list_all_iff)

lemma list_all_nth:
  assumes "list_all P xs" "i < length xs"
  shows "P (xs ! i)"
  using assms by (simp add: list_all_length)

lemma wf_send_Prepare:
  assumes "list_all wf_peer ns" "h < length ns" "send_Prepare outcome ns h i args = (reply, ns')"
  shows "list_all wf_peer ns'"
proof (cases "int i = me (ns ! h)")
  case True
  obtain r px' where p: "Prepare (ns ! h) args = (r, px')" by (cases "Prepare (ns ! h) args")
  have "wf_peer px'" using wf_peer_Prepare [OF list_all_nth [OF assms(1,2)] p] .
  then show ?thesis
    using assms(1,3) True p by (auto simp: send_Prepare_def intro: list_all_update)
next
  case False
  show ?thesis
  proof (cases "i < length ns")
    case True
    obtain r px' where p: "Prepare (ns ! i) args = (r, px')" by (cases "Prepare (ns ! i) args")
    have "wf_peer px'" using wf_peer_Prepare [OF list_all_nth [OF assms(1) True] p] .
    then show ?thesis
      using assms(1,3) False True p
      by (cases outcome) (auto simp: send_Prepare_def call_Prepare_def intro: list_all_update)
  next
    case nolisten: False
    then show ?thesis using assms(1,3) False by (simp add: send_Prepare_def)
  qed
qed

lemma wf_send_Accept:
  assumes "list_all wf_peer ns" "h < length ns" "send_Accept outcome ns h i args = (reply, ns')"
  shows "list_all wf_peer ns'"
proof (cases "int i = me (ns ! h)")
  case True
  obtain r px' where p: "Accept (ns ! h) args = (r, px')" by (cases "Accept (ns ! h) args")
  have "wf_peer px'" using wf_peer_Accept [OF list_all_nth [OF assms(1,2)] p] .
  then show ?thesis
    using assms(1,3) True p by (auto simp: send_Accept_def intro: list_all_update)
next
  case False
  show ?thesis
  proof (cases "i < length ns")
    case True
    obtain r px' where p: "Accept (ns ! i) args = (r, px')" by (cases "Accept (ns ! i) args")
    have "wf_peer px'" using wf_peer_Accept [OF list_all_nth [OF assms(1) True] p] .
    then show ?thesis
      using assms(1,3) False True p
      by (cases outcome) (auto simp: send_Accept_def call_Accept_def intro: list_all_update)
  next
    case nolisten: False
    then show ?thesis using assms(1,3) False by (simp add: send_Accept_def)
  qed
qed

lemma wf_send_Decide:
  assumes "list_all wf_peer ns" "h < length ns" "send_Decide outcome ns h i args = Inr ns'"
  shows "list_all wf_peer ns'"
proof -
  have upd: "list_all wf_peer ns'"
    if "j < length ns" and "(case Decide (ns ! j) args of Inl e \<Rightarrow> Inl e | Inr q \<Rightarrow> Inr (ns[j := q])) = Inr ns'"
    for j
  proof (cases "Decide (ns ! j) args")
    case (Inl e)
    then show ?thesis using that(2) by simp
  next
    case (Inr px')
    have "wf_peer px'" using wf_peer_Decide [OF list_all_nth [OF assms(1) that(1)] Inr] .
    moreover have "ns' = ns[j := px']" using that(2) Inr by simp
    ultimately show ?thesis using assms(1) by (simp add: list_all_update)
  qed
  show ?thesis
  proof (cases "int i = me (ns ! h)")
    case True
    then show ?thesis using assms(2,3) upd [of h] by (simp add: send_Decide_def)
  next
    case False
    show ?thesis
    proof (cases "i < length ns")
      case True
      show ?thesis
      proof (cases outcome)
        case Answered
        then show ?thesis
          using assms(3) False True upd [of i] by (simp add: send_Decide_def call_Decide_def)
      next
        case ReplyLost
        then show ?thesis
          using assms(3) False True upd [of i] by (simp add: send_Decide_def call_Decide_def)
      next
        case RequestLost
        then have "ns' = ns"
          using assms(3) False True by (simp add: send_Decide_def call_Decide_def)
        then show ?thesis using assms(1) by simp
      qed
    next
      case nolisten: False
      then show ?thesis using assms(1,3) False by (simp add: send_Decide_def)
    qed
  qed
qed

lemma wf_propose_step:
  assumes "list_all wf_peer ns" "h < length ns"
    and "propose_step clock outcome ns h seq v pc = Inr (ns', pc')"
  shows "list_all wf_peer ns'"
proof (cases pc)
  case AtTop
  then show ?thesis using assms by simp
next
  case (InPrepare pnum i acnum maxprenum maxacval)
  obtain r ns1 where s: "send_Prepare outcome ns h i (PrepareArgs seq pnum) = (r, ns1)"
    by (cases "send_Prepare outcome ns h i (PrepareArgs seq pnum)")
  have "list_all wf_peer ns1" using wf_send_Prepare [OF assms(1,2) s] .
  then show ?thesis
    using assms(1,3) InPrepare s by (cases r) (auto split: if_splits)
next
  case (InAccept pnum val i accNum)
  obtain r ns1 where s: "send_Accept outcome ns h i (AcceptArgs seq pnum val) = (r, ns1)"
    by (cases "send_Accept outcome ns h i (AcceptArgs seq pnum val)")
  have "list_all wf_peer ns1" using wf_send_Accept [OF assms(1,2) s] .
  then show ?thesis
    using assms(1,3) InAccept s by (cases r) (auto split: if_splits)
next
  case (InDecide decargs i)
  then show ?thesis
    using assms wf_send_Decide [OF assms(1,2), of outcome i decargs]
    by (auto split: if_splits sum.splits)
next
  case AtStatus
  then obtain r px' where s: "Status (ns ! h) seq = Inr (r, px')" and n: "ns' = ns[h := px']"
    using assms(3) by (auto split: sum.splits prod.splits)
  have "wf_peer px'" using wf_peer_Status [OF list_all_nth [OF assms(1,2)] s] .
  then show ?thesis using assms(1) n by (simp add: list_all_update)
next
  case Exited
  then show ?thesis using assms by simp
qed

lemma wf_exec:
  assumes "list_all wf_peer (nodes w)" "exec w e = Inr w'"
  shows "list_all wf_peer (nodes w')"
proof (cases e)
  case (Start h seq v)
  show ?thesis
  proof (cases "h < length (nodes w)")
    case True
    then obtain mn px' where m: "Min_paxos (nodes w ! h) = Inr (mn, px')"
      using assms(2) Start by (auto split: sum.splits)
    have "wf_peer px'" using wf_peer_Min_paxos [OF list_all_nth [OF assms(1) True] m] .
    then have "list_all wf_peer ((nodes w)[h := px'])" using assms(1) by (simp add: list_all_update)
    then show ?thesis using assms(2) Start True m by (auto split: if_splits)
  next
    case False
    then show ?thesis using assms Start by simp
  qed
next
  case (CallDone h seq)
  show ?thesis
  proof (cases "h < length (nodes w)")
    case True
    then obtain px' where d: "Done (nodes w ! h) seq = Inr px'"
      using assms(2) CallDone by (auto split: sum.splits)
    have "wf_peer px'" using wf_peer_Done [OF list_all_nth [OF assms(1) True] d] .
    then have "list_all wf_peer ((nodes w)[h := px'])" using assms(1) by (simp add: list_all_update)
    then show ?thesis using assms(2) CallDone True d by auto
  next
    case False
    then show ?thesis using assms CallDone by simp
  qed
next
  case (CallStatus h seq)
  show ?thesis
  proof (cases "h < length (nodes w)")
    case True
    then obtain r px' where s: "Status (nodes w ! h) seq = Inr (r, px')"
      using assms(2) CallStatus by (auto split: sum.splits)
    have "wf_peer px'" using wf_peer_Status [OF list_all_nth [OF assms(1) True] s] .
    then have "list_all wf_peer ((nodes w)[h := px'])" using assms(1) by (simp add: list_all_update)
    then show ?thesis using assms(2) CallStatus True s by auto
  next
    case False
    then show ?thesis using assms CallStatus by simp
  qed
next
  case (Run k clock outcome)
  show ?thesis
  proof (cases "k < length (tasks w) \<and> t_host (tasks w ! k) < length (nodes w)")
    case True
    let ?t = "tasks w ! k"
    obtain ns' pc' where
      p: "propose_step clock outcome (nodes w) (t_host ?t) (t_seq ?t) (t_v ?t) (t_pc ?t) = Inr (ns', pc')"
      using assms(2) Run True by (auto simp: Let_def split: sum.splits)
    have "list_all wf_peer ns'" using wf_propose_step [OF assms(1) _ p] True by simp
    then show ?thesis using assms(2) Run True p by (auto simp: Let_def)
  next
    case False
    then show ?thesis using assms Run by auto
  qed
qed

lemma wf_run:
  assumes "list_all wf_peer (nodes w)" "run w es = Inr w'"
  shows "list_all wf_peer (nodes w')"
  using assms
proof (induction es arbitrary: w)
  case Nil
  then show ?case by simp
next
  case (Cons e es)
  then obtain w1 where e: "exec w e = Inr w1" and r: "run w1 es = Inr w'"
    by (auto split: sum.splits)
  show ?case using Cons.IH [OF wf_exec [OF Cons.prems(1) e] r] .
qed

lemma wf_boot: "list_all wf_peer (nodes (boot ps))"
  by (auto simp: boot_def list_all_iff intro!: wf_peer_Make)

section \<open>The acceptor\<close>

text \<open>
  Claim C3. \<open>Prepare(seq, pnum)\<close> works on the instance at \<open>seq\<close>, a fresh one when the
  store has none. When \<open>pnum\<close> is at least the promise \<open>n_p\<close> of that instance in the
  order of Go strings, the reply is \<open>OK\<close> and the stored instance is the old one with
  \<open>n_p\<close> set to \<open>pnum\<close>; otherwise the reply is \<open>Reject\<close> and the stored instance is
  the old one. In both cases the reply carries \<open>n_a\<close> and \<open>v_a\<close> of the instance.
\<close>

theorem Prepare_reply:
  assumes "Prepare px (PrepareArgs seq pnum) = (PrepareReply err apn av, px')"
    and "cur = (case map_of (instances px) seq of None \<Rightarrow> newInstance | Some inst \<Rightarrow> inst)"
  shows "(if pnum \<ge> n_p cur
          then err = OK \<and> map_of (instances px') seq = Some (cur\<lparr>n_p := pnum\<rparr>)
          else err = Reject \<and> map_of (instances px') seq = Some cur) \<and>
         apn = n_a cur \<and> av = v_a cur"
  using assms
  by (auto simp: Let_def map_of_create_absent instance_at_def split: if_splits option.splits)

theorem Prepare_reply_witness:
  "Prepare promised_peer (PrepareArgs 0 ''6-2'') =
     (PrepareReply Reject ''5-0'' (Some ''a''), promised_peer) \<and>
   \<not> ''6-2'' \<ge> ''7-1'' \<and>
   map_of (instances promised_peer) 0 =
     Some \<lparr>state = Pending, n_p = ''7-1'', n_a = ''5-0'', v_a = Some ''a''\<rparr> \<and>
   Prepare promised_peer (PrepareArgs 3 ''6-2'') =
     (PrepareReply OK [] None,
      promised_peer\<lparr>instances := instances promised_peer @
         [(3, \<lparr>state = Pending, n_p = ''6-2'', n_a = [], v_a = None\<rparr>)]\<rparr>) \<and>
   map_of (instances (promised_peer\<lparr>instances := instances promised_peer @
         [(3, \<lparr>state = Pending, n_p = ''6-2'', n_a = [], v_a = None\<rparr>)]\<rparr>)) 3 =
     Some (newInstance\<lparr>n_p := ''6-2''\<rparr>)"
proof -
  let ?old = "\<lparr>state = Pending, n_p = ''7-1'', n_a = ''5-0'', v_a = Some ''a''\<rparr> :: string instance_t"
  let ?px' = "promised_peer\<lparr>instances := instances promised_peer @
         [(3, \<lparr>state = Pending, n_p = ''6-2'', n_a = [], v_a = None\<rparr>)]\<rparr>"
  have r: "Prepare promised_peer (PrepareArgs 0 ''6-2'') =
             (PrepareReply Reject ''5-0'' (Some ''a''), promised_peer)"
    by (simp add: promised_peer_def create_absent_def instance_at_def Let_def)
  have c: "?old = (case map_of (instances promised_peer) 0 of None \<Rightarrow> newInstance | Some inst \<Rightarrow> inst)"
    by (simp add: promised_peer_def)
  have k: "Prepare promised_peer (PrepareArgs 3 ''6-2'') = (PrepareReply OK [] None, ?px')"
    by (simp add: promised_peer_def create_absent_def instance_at_def store_def newInstance_def Let_def)
  have n: "(newInstance :: string instance_t) =
             (case map_of (instances promised_peer) 3 of None \<Rightarrow> newInstance | Some inst \<Rightarrow> inst)"
    by (simp add: promised_peer_def)
  show ?thesis
    using r k Prepare_reply [OF r c] Prepare_reply [OF k n]
    by (simp add: promised_peer_def newInstance_def)
qed

text \<open>
  Claim C4. \<open>Accept(seq, pnum, v)\<close> on a store with no instance at \<open>seq\<close> replies
  \<open>Reject\<close> and leaves the peer as it was. On an instance with \<open>pnum\<close> at least its
  \<open>n_p\<close> it replies \<open>OK\<close> and stores the instance with \<open>n_p\<close> and \<open>n_a\<close> set to
  \<open>pnum\<close> and \<open>v_a\<close> set to \<open>v\<close>; otherwise it replies \<open>Reject\<close> and leaves the peer
  as it was. The state field of every instance of the store is the same after the call, so
  \<open>Accept\<close> never moves an instance to \<open>Decided\<close>.
\<close>

theorem Accept_reply:
  assumes "Accept px (AcceptArgs seq pnum v) = (AcceptReply err, px')"
  shows "(case map_of (instances px) seq of
            None \<Rightarrow> err = Reject \<and> px' = px
          | Some inst \<Rightarrow>
              if pnum \<ge> n_p inst
              then err = OK \<and>
                   map_of (instances px') seq = Some (inst\<lparr>n_p := pnum, n_a := pnum, v_a := v\<rparr>)
              else err = Reject \<and> px' = px) \<and>
         (\<forall>s. map_option state (map_of (instances px') s) = map_option state (map_of (instances px) s))"
  using assms
  by (auto simp: Let_def split: if_splits option.splits)

theorem Accept_reply_witness:
  "Accept promised_peer (AcceptArgs 0 ''8-2'' (Some ''b'')) =
     (AcceptReply OK,
      promised_peer\<lparr>instances :=
        [(0, \<lparr>state = Pending, n_p = ''8-2'', n_a = ''8-2'', v_a = Some ''b''\<rparr>)]\<rparr>) \<and>
   map_option state (map_of (instances (promised_peer\<lparr>instances :=
        [(0, \<lparr>state = Pending, n_p = ''8-2'', n_a = ''8-2'', v_a = Some ''b''\<rparr>)]\<rparr>)) 0) =
     Some Pending \<and>
   Accept promised_peer (AcceptArgs 3 ''8-2'' (Some ''b'')) = (AcceptReply Reject, promised_peer)"
proof -
  let ?px' = "promised_peer\<lparr>instances :=
        [(0, \<lparr>state = Pending, n_p = ''8-2'', n_a = ''8-2'', v_a = Some ''b''\<rparr>)]\<rparr>"
  have k: "Accept promised_peer (AcceptArgs 0 ''8-2'' (Some ''b'')) = (AcceptReply OK, ?px')"
    by (simp add: promised_peer_def store_def Let_def)
  have r: "Accept promised_peer (AcceptArgs 3 ''8-2'' (Some ''b'')) = (AcceptReply Reject, promised_peer)"
    by (simp add: promised_peer_def)
  show ?thesis
    using k r Accept_reply [OF k] Accept_reply [OF r]
    by (simp add: promised_peer_def)
qed

text \<open>
  Claim C9. \<open>Prepare(seq, pnum)\<close>, whatever it replies, leaves the done vector, the peer
  list and the peer's index as they were, and leaves the instance of every other sequence
  number as it was. At \<open>seq\<close> the store has an instance afterwards, whose \<open>n_a\<close>,
  \<open>v_a\<close> and state are those of the instance before the call (of a fresh instance when
  there was none) and whose \<open>n_p\<close> is not below the one before.
\<close>

theorem Prepare_frame:
  assumes "Prepare px (PrepareArgs seq pnum) = (reply, px')"
    and "cur = (case map_of (instances px) seq of None \<Rightarrow> newInstance | Some inst \<Rightarrow> inst)"
  shows "dones px' = dones px \<and> peers px' = peers px \<and> me px' = me px \<and>
         (\<forall>s. s \<noteq> seq \<longrightarrow> map_of (instances px') s = map_of (instances px) s) \<and>
         (\<exists>inst'. map_of (instances px') seq = Some inst' \<and>
            n_a inst' = n_a cur \<and> v_a inst' = v_a cur \<and> state inst' = state cur \<and>
            n_p cur \<le> n_p inst')"
  using assms
  by (auto simp: Let_def map_of_create_absent instance_at_def split: if_splits option.splits)

theorem Prepare_frame_witness:
  "Prepare promised_peer (PrepareArgs 0 ''8-2'') =
     (PrepareReply OK ''5-0'' (Some ''a''),
      promised_peer\<lparr>instances :=
        [(0, \<lparr>state = Pending, n_p = ''8-2'', n_a = ''5-0'', v_a = Some ''a''\<rparr>)]\<rparr>) \<and>
   (3::int) \<noteq> 0 \<and>
   map_of (instances (promised_peer\<lparr>instances :=
        [(0, \<lparr>state = Pending, n_p = ''8-2'', n_a = ''5-0'', v_a = Some ''a''\<rparr>)]\<rparr>)) 3 =
     map_of (instances promised_peer) 3 \<and>
   dones (promised_peer\<lparr>instances :=
        [(0, \<lparr>state = Pending, n_p = ''8-2'', n_a = ''5-0'', v_a = Some ''a''\<rparr>)]\<rparr>) =
     dones promised_peer"
proof -
  let ?old = "\<lparr>state = Pending, n_p = ''7-1'', n_a = ''5-0'', v_a = Some ''a''\<rparr> :: string instance_t"
  let ?px' = "promised_peer\<lparr>instances :=
        [(0, \<lparr>state = Pending, n_p = ''8-2'', n_a = ''5-0'', v_a = Some ''a''\<rparr>)]\<rparr>"
  have k: "Prepare promised_peer (PrepareArgs 0 ''8-2'') = (PrepareReply OK ''5-0'' (Some ''a''), ?px')"
    by (simp add: promised_peer_def create_absent_def instance_at_def store_def Let_def)
  have c: "?old = (case map_of (instances promised_peer) 0 of None \<Rightarrow> newInstance | Some inst \<Rightarrow> inst)"
    by (simp add: promised_peer_def)
  have "\<forall>s. s \<noteq> 0 \<longrightarrow> map_of (instances ?px') s = map_of (instances promised_peer) s"
    and "dones ?px' = dones promised_peer"
    using Prepare_frame [OF k c] by blast+
  then show ?thesis using k by simp
qed

text \<open>
  Claim C10. A call \<open>Decide(seq, v, pnum, sender, done)\<close> with a sender that indexes the
  done vector returns, and the store then has at \<open>seq\<close> the instance with state
  \<open>Decided\<close>, \<open>n_p = n_a = pnum\<close> and \<open>v_a = v\<close>, whatever the store held before.
  No test against the forget horizon is made: the witness is a peer from which \<open>Min\<close> has
  deleted instance 0 and on which a late \<open>Decide\<close> for instance 0 creates the entry again.
\<close>

theorem Decide_post:
  assumes "in_range (dones px) sender"
  shows "\<exists>px'. Decide px (DecideArgs seq v pnum sender sdone) = Inr px' \<and>
           map_of (instances px') seq = Some \<lparr>state = Decided, n_p = pnum, n_a = pnum, v_a = v\<rparr>"
  using assms by (simp add: Let_def)

theorem Decide_post_witness:
  "Min_paxos decided_peer = Inr (1, collected_peer) \<and>
   map_of (instances collected_peer) 0 = None \<and>
   in_range (dones collected_peer) 1 \<and>
   (\<exists>px'. Decide collected_peer (DecideArgs 0 (Some ''a'') ''3-1'' 1 2) = Inr px' \<and>
      map_of (instances px') 0 =
        Some \<lparr>state = Decided, n_p = ''3-1'', n_a = ''3-1'', v_a = Some ''a''\<rparr>)"
proof -
  have m: "Min_paxos decided_peer = Inr (1, collected_peer)"
    by (simp add: Min_paxos_def min_done_def forget_def in_range_def wrap64_def
        decided_peer_def collected_peer_def Let_def)
  have a: "map_of (instances collected_peer) 0 = None"
    by (simp add: collected_peer_def)
  have h: "in_range (dones collected_peer) 1"
    by (simp add: in_range_def collected_peer_def)
  show ?thesis
    using m a h Decide_post [OF h, of 0 "Some ''a''" "''3-1''" 2] by simp
qed

text \<open>
  Claim C2. The claim has \<open>Decide\<close> keep the larger of the stored entry and the sender's
  value. The code assigns the sender's value: on a peer that has recorded 5 for peer 1, a
  \<open>Decide\<close> from peer 1 that carries \<open>-1\<close> brings the entry back to \<open>-1\<close>.
\<close>

theorem Decide_lowers_dones:
  "Decide informed_peer (DecideArgs 0 (Some ''a'') ''1000-1'' 1 (- 1)) =
     Inr \<lparr>peers = [''p0'', ''p1'', ''p2''], me = 0, dones = [- 1, - 1, - 1],
          instances = [(0, \<lparr>state = Decided, n_p = ''1000-1'', n_a = ''1000-1'', v_a = Some ''a''\<rparr>)]\<rparr>"
  by (simp add: informed_peer_def create_absent_def instance_at_def store_def newInstance_def
      in_range_def Let_def)

text \<open>
  \<open>Done\<close>, which writes the same vector, keeps the larger value; and a stale value reaches
  \<open>Decide\<close> in a run: the \<open>Done(5)\<close> of the application is undone by the proposer's own
  \<open>Decide\<close>, whose arguments were built before it.
\<close>

lemma Done_keeps_larger:
  assumes "Done px seq = Inr px'"
  shows "dones px' ! nat (me px) = max (dones px ! nat (me px)) seq"
  using assms by (auto simp: Done_def in_range_def split: if_splits)

lemma late_decide_undoes_Done:
  "map_sum id (\<lambda>w. map dones (nodes w)) (run (boot [''p0'', ''p1'', ''p2'']) late_decide) =
     Inr [[- 1, - 1, - 1], [- 1, - 1, - 1], [- 1, - 1, - 1]]"
  by code_simp

section \<open>The application's calls\<close>

text \<open>
  Claim C5. On a peer whose index is within the done vector, \<open>Min()\<close> returns \<open>m + 1\<close>
  for the minimum \<open>m\<close> of the done vector (the addition is Go's, on 64 bits, and is the
  exact sum unless \<open>m\<close> is the largest integer), leaves the done vector as it was, and
  leaves a store that has lost exactly the instances with \<open>seq \<le> m\<close> and state
  \<open>Decided\<close>.
\<close>

theorem Min_paxos_spec:
  assumes "distinct (map fst (instances px))"
    and "in_range (dones px) (me px)"
    and "m = Min (set (dones px))"
  shows "\<exists>px'. Min_paxos px = Inr (wrap64 (m + 1), px') \<and>
           (\<forall>s. map_of (instances px') s =
                  (case map_of (instances px) s of
                     None \<Rightarrow> None
                   | Some inst \<Rightarrow> if s \<le> m \<and> state inst = Decided then None else Some inst)) \<and>
           dones px' = dones px \<and>
           (- (2 ^ 63) \<le> m \<and> m < 2 ^ 63 - 1 \<longrightarrow> wrap64 (m + 1) = m + 1)"
proof -
  have "- (2 ^ 63) \<le> m \<and> m < 2 ^ 63 - 1 \<longrightarrow> wrap64 (m + 1) = m + 1"
    by (auto intro!: wrap64_id)
  moreover have "min_done px = m"
    using assms(2,3) by (simp add: min_done_eq)
  ultimately show ?thesis
    using assms(1,2) by (simp add: Min_paxos_def Let_def map_of_forget)
qed

theorem Min_paxos_spec_witness:
  "distinct (map fst (instances decided_peer)) \<and>
   in_range (dones decided_peer) (me decided_peer) \<and>
   (0::int) = Min (set (dones decided_peer)) \<and>
   - (2 ^ 63) \<le> (0::int) \<and> (0::int) < 2 ^ 63 - 1 \<and>
   Min_paxos decided_peer = Inr (1, collected_peer) \<and>
   map_of (instances collected_peer) 0 = None \<and>
   map_of (instances collected_peer) 2 = map_of (instances decided_peer) 2"
proof -
  have d: "distinct (map fst (instances decided_peer))"
    by (simp add: decided_peer_def)
  have r: "in_range (dones decided_peer) (me decided_peer)"
    by (simp add: in_range_def decided_peer_def)
  have m: "(0::int) = Min (set (dones decided_peer))"
    by (simp add: decided_peer_def)
  have e: "Min_paxos decided_peer = Inr (1, collected_peer)"
    by (simp add: Min_paxos_def min_done_def forget_def in_range_def wrap64_def
        decided_peer_def collected_peer_def Let_def)
  from Min_paxos_spec [OF d r m] obtain px' where
    "Min_paxos decided_peer = Inr (wrap64 (0 + 1), px')" and "dones px' = dones decided_peer"
    by blast
  then have "px' = collected_peer" using e by simp
  then show ?thesis
    using d r m e by (simp add: decided_peer_def collected_peer_def)
qed

text \<open>
  Claim C6. The claim has \<open>Max()\<close> return \<open>-1\<close> on an empty store, as the comment at
  the head of the file says. The loop starts from 0, so a peer fresh from \<open>Make\<close>
  returns 0.
\<close>

theorem Max_paxos_empty:
  "Max_paxos (Make [''p0'', ''p1'', ''p2''] 0 :: string Paxos) = 0"
  by (simp add: Max_paxos_def Make_def)

text \<open>
  Claim C7, as stated: none of \<open>Status\<close>, \<open>Max\<close> and \<open>Min\<close> changes the store or the
  done vector. \<open>Min\<close> deletes instance 0 of the example peer, and \<open>Status\<close> does so
  too, since it calls \<open>Min\<close>.
\<close>

theorem Min_Status_write_store:
  "map_sum id (instances \<circ> snd) (Min_paxos decided_peer) = Inr (instances collected_peer) \<and>
   map_sum id (instances \<circ> snd) (Status decided_peer 2) = Inr (instances collected_peer) \<and>
   instances collected_peer \<noteq> instances decided_peer"
  by (simp add: Status_def Min_paxos_def min_done_def forget_def in_range_def wrap64_def
      decided_peer_def collected_peer_def Let_def)

text \<open>
  Claim C7, amended. \<open>Max\<close> returns a number and writes nothing. \<open>Min\<close> and \<open>Status\<close>
  leave the done vector, the peer list and the peer's index as they were; they leave the
  same store, which differs from the one before only in having lost the instances with
  \<open>seq\<close> at most the minimum of the done vector and state \<open>Decided\<close>.
\<close>

theorem Min_Status_frame:
  assumes "distinct (map fst (instances px))"
    and "Min_paxos px = Inr (h, px1)"
    and "Status px seq = Inr (r, px2)"
  shows "dones px1 = dones px \<and> peers px1 = peers px \<and> me px1 = me px \<and> px2 = px1 \<and>
         (\<forall>s. map_of (instances px1) s =
                (case map_of (instances px) s of
                   None \<Rightarrow> None
                 | Some inst \<Rightarrow>
                     if s \<le> Min (set (dones px)) \<and> state inst = Decided then None else Some inst))"
proof -
  have r: "in_range (dones px) (me px)"
    using assms(2) by (auto simp: Min_paxos_def split: if_splits)
  have "px1 = px\<lparr>instances := forget (min_done px) (instances px)\<rparr>"
    using assms(2) r by (simp add: Min_paxos_def Let_def)
  then show ?thesis
    using assms(1) Status_state [OF assms(2,3)]
    by (simp add: min_done_eq [OF r] map_of_forget)
qed

theorem Min_Status_frame_witness:
  "distinct (map fst (instances decided_peer)) \<and>
   Min_paxos decided_peer = Inr (1, collected_peer) \<and>
   Status decided_peer 2 = Inr ((Decided, Some ''c''), collected_peer) \<and>
   dones collected_peer = dones decided_peer \<and>
   map_of (instances collected_peer) 1 = map_of (instances decided_peer) 1"
proof -
  have d: "distinct (map fst (instances decided_peer))"
    by (simp add: decided_peer_def)
  have e: "Min_paxos decided_peer = Inr (1, collected_peer)"
    by (simp add: Min_paxos_def min_done_def forget_def in_range_def wrap64_def
        decided_peer_def collected_peer_def Let_def)
  have s: "Status decided_peer 2 = Inr ((Decided, Some ''c''), collected_peer)"
    by (simp add: Status_def e) (simp add: collected_peer_def)
  have "dones collected_peer = dones decided_peer"
    using Min_Status_frame [OF d e s] by blast
  then show ?thesis
    using d e s by (simp add: decided_peer_def collected_peer_def)
qed

section \<open>Round numbers\<close>

text \<open>
  Claim C8. The claim has a later clock reading give a larger round number, and two
  generations of one peer in one tick give distinct, increasing round numbers; the
  acceptors, which answer \<open>OK\<close> to a round that is \<open>\<ge>\<close> their promise, rely on
  both. The code puts the nanoseconds first and the peer's index last, but it does not pad
  the digits, so the reading with 18 digits gives a string below the one of the 17-digit
  reading before it; and it keeps no counter, so a second generation in the same tick
  returns the same string, which is not above the first.
\<close>

theorem generatePNum_not_monotone:
  "generatePNum 99999999999999999 promised_peer = ''99999999999999999-1'' \<and>
   generatePNum 100000000000000000 promised_peer = ''100000000000000000-1'' \<and>
   generatePNum 100000000000000000 promised_peer < generatePNum 99999999999999999 promised_peer \<and>
   \<not> generatePNum 1000 promised_peer < generatePNum 1000 promised_peer"
  by (simp add: generatePNum_def FormatInt_def promised_peer_def digits_small digits_large
      digit_char_def)

text \<open>
  How far the defect reaches. Between two readings that are not negative and have the
  same number of decimal digits the order is the order of time, on whatever peers they are
  taken; and the only round numbers that collide are those of one peer in one tick, the
  collision that the run \<open>duel\<close> turns into two decided values.
\<close>

lemma generatePNum_order:
  "(0 \<le> d1 \<and> d1 < d2 \<and> length (FormatInt d1) = length (FormatInt d2) \<longrightarrow>
      generatePNum d1 px1 < generatePNum d2 px2) \<and>
   (generatePNum d1 px1 = generatePNum d2 px2 \<longleftrightarrow> d1 = d2 \<and> me px1 = me px2)"
  using generatePNum_mono [of d1 d2 px1 px2] generatePNum_inj [of d1 px1 d2 px2] by blast

lemma generatePNum_order_example:
  "(0::int) \<le> 1000 \<and> (1000::int) < 1001 \<and> length (FormatInt 1000) = length (FormatInt 1001) \<and>
   generatePNum 1000 promised_peer < generatePNum 1001 decided_peer \<and>
   generatePNum 1000 promised_peer \<noteq> generatePNum 1000 decided_peer"
proof -
  have l: "length (FormatInt 1000) = length (FormatInt 1001)"
    by (simp add: FormatInt_def digits_small digits_large)
  have "me promised_peer \<noteq> me decided_peer"
    by (simp add: promised_peer_def decided_peer_def)
  then show ?thesis
    using l generatePNum_order [of 1000 1001 promised_peer decided_peer]
      generatePNum_order [of 1000 1000 promised_peer decided_peer]
    by simp
qed

section \<open>Agreement\<close>

text \<open>
  Claim C1. The claim has any two peers that report \<open>Decided\<close> for a sequence number
  report the same value, under every interleaving. In the run \<open>duel\<close> no message is
  lost; the two proposers of peer 0 draw the same round number \<open>1000-0\<close>, each acceptor
  answers \<open>OK\<close> to both because it compares with \<open>\<ge>\<close>, both proposers reach
  their last loop with their own value, and at the end \<open>Status(0)\<close> returns \<open>b\<close> on
  peers 0 and 2 and \<open>a\<close> on peer 1.
\<close>

theorem duel_breaks_agreement:
  "map_sum id (\<lambda>w. reports w 0) (run (boot [''p0'', ''p1'', ''p2'']) duel) =
     Inr [Inr (Decided, Some ''b''), Inr (Decided, Some ''a''), Inr (Decided, Some ''b'')]"
  by code_simp

text \<open>
  Agreement also fails with round numbers that all differ. In the run \<open>forgetful\<close>
  peers 2, 3 and 4, a majority, have deleted the decided instance 0 and with it what they
  had promised and accepted; the proposer of peer 0, whose round \<open>1000-0\<close> is below
  the decided round \<open>2000-1\<close>, gets its value \<open>b\<close> accepted by them and decides
  it. At the end peer 0 reports \<open>b\<close> and peer 1 reports \<open>a\<close>.
\<close>

lemma forgetful_breaks_agreement:
  "map_sum id (\<lambda>w. reports w 0) (run (boot [''p0'', ''p1'', ''p2'', ''p3'', ''p4'']) forgetful) =
     Inr [Inr (Decided, Some ''b''), Inr (Decided, Some ''a''),
          Inr (Forgotten, None), Inr (Forgotten, None), Inr (Forgotten, None)]"
  by code_simp

end
